theory Spec2Isabelle
  imports Complex_Main "HOL-Library.Word" "HOL-Library.List_Lexorder" "HOL-Library.Char_ord"
begin

unbundle bit_operations_syntax

section \<open>The record type and the tree node (Lab_3-2.cpp, Lab_3-1.cpp)\<close>

text \<open>
  \<^verbatim>\<open>struct person\<close> of Lab_3-2.cpp: three strings. \<^verbatim>\<open>std::string\<close> is compared
  bytewise and lexicographically, a proper prefix being smaller: the order of
  \<open>char list\<close> given by \<open>List_Lexorder\<close> over \<open>Char_ord\<close>.
\<close>

record person =
  first_name :: string
  last_name :: string
  number :: string

text \<open>The default constructor \<^verbatim>\<open>person()\<close>: every field is \<^verbatim>\<open>"NONE"\<close>.\<close>

definition person_default :: person where
  "person_default = \<lparr>first_name = ''NONE'', last_name = ''NONE'', number = ''NONE''\<rparr>"

text \<open>The constructor \<^verbatim>\<open>person(fn, ln, num)\<close>.\<close>

definition mk_person :: "string \<Rightarrow> string \<Rightarrow> string \<Rightarrow> person" where
  "mk_person fn lnm num = \<lparr>first_name = fn, last_name = lnm, number = num\<rparr>"

text \<open>
  \<^verbatim>\<open>struct tNode\<close>, fields in the order of the source: left, right, val, height.
  \<open>Null\<close> is the null pointer. Lab_3-1.cpp stores a \<^verbatim>\<open>double\<close>, Lab_3-2.cpp a
  \<open>person\<close>, so the value type is a parameter. Every node is owned by exactly one
  parent, so a pointer to a node is modelled by the subtree itself. The cached height
  is a C++ \<^verbatim>\<open>int\<close>; it is bounded by the number of nodes, so it is modelled by \<open>int\<close>
  without wrap-around.
\<close>

datatype 'a tNode = Null | Node "'a tNode" "'a tNode" 'a int

section \<open>Height bookkeeping and rotations (the same in both files)\<close>

fun height :: "'a tNode \<Rightarrow> int" where
  "height Null = 0"
| "height (Node l r v h) = h"

fun getBalance :: "'a tNode \<Rightarrow> int" where
  "getBalance Null = 0"
| "getBalance (Node l r v h) = height l - height r"

text \<open>
  A function that dereferences a null pointer has no result: \<open>None\<close>.
  \<^verbatim>\<open>rotateRight(y)\<close> reads \<^verbatim>\<open>y->left\<close> and \<^verbatim>\<open>x->right\<close>, so both \<open>y\<close> and its
  left child must be nodes.
\<close>

fun rotateRight :: "'a tNode \<Rightarrow> 'a tNode option" where
  "rotateRight (Node (Node xl T2 xv xh) yr yv yh) =
     (let hl = height T2; hr = height yr;
          y = Node T2 yr yv ((if hl > hr then hl else hr) + 1);
          hl = height xl; hr = height y
      in Some (Node xl y xv ((if hl > hr then hl else hr) + 1)))"
| "rotateRight _ = None"

text \<open>
  \<^verbatim>\<open>rotateLeft(x)\<close> makes \<open>y = x->right\<close> the new root and \<open>x\<close> its left child.
  As in \<^verbatim>\<open>rotateRight\<close>, the source writes the height of \<open>y\<close> first and the height
  of \<open>x\<close> second. Here \<open>y\<close> is the parent: \<^verbatim>\<open>height(y->left)\<close> reads the height that
  \<open>x\<close> still caches from before the rotation (\<open>xh\<close>).
\<close>

fun rotateLeft :: "'a tNode \<Rightarrow> 'a tNode option" where
  "rotateLeft (Node xl (Node T2 yr yv yh) xv xh) =
     (let hl = xh; hr = height yr;
          yh' = (if hl > hr then hl else hr) + 1;
          hl = height xl; hr = height T2;
          x = Node xl T2 xv ((if hl > hr then hl else hr) + 1)
      in Some (Node x yr yv yh'))"
| "rotateLeft _ = None"

text \<open>
  \<^verbatim>\<open>balance(node)\<close>. \<^verbatim>\<open>getBalance\<close> accepts the null pointer, the branches that
  read \<^verbatim>\<open>node->left\<close> or \<^verbatim>\<open>node->right\<close> do not.
\<close>

fun balance :: "'a tNode \<Rightarrow> 'a tNode option" where
  "balance node =
     (let balanceFactor = getBalance node in
      if balanceFactor > 1 then
        (case node of
           Null \<Rightarrow> None
         | Node l r v h \<Rightarrow>
             if getBalance l \<ge> 0 then rotateRight node
             else Option.bind (rotateLeft l) (\<lambda>l'. rotateRight (Node l' r v h)))
      else if balanceFactor < -1 then
        (case node of
           Null \<Rightarrow> None
         | Node l r v h \<Rightarrow>
             if getBalance r \<le> 0 then rotateLeft node
             else Option.bind (rotateRight r) (\<lambda>r'. rotateLeft (Node l r' v h)))
      else Some node)"

text \<open>
  The three statements that end \<^verbatim>\<open>insertRec\<close>, \<^verbatim>\<open>removeRec\<close> and
  \<^verbatim>\<open>removeRecFL\<close>: recompute the cached height of \<open>node\<close> from its children, then
  \<^verbatim>\<open>return balance(node)\<close>.
\<close>

fun updateHeightBalance :: "'a tNode \<Rightarrow> 'a tNode option" where
  "updateHeightBalance Null = None"
| "updateHeightBalance (Node l r v h) =
     (let hl = height l; hr = height r
      in balance (Node l r v (1 + (if hl > hr then hl else hr))))"

text \<open>\<^verbatim>\<open>findMin(node)\<close>: the leftmost node; \<^verbatim>\<open>node->left\<close> is read at once.\<close>

fun findMin :: "'a tNode \<Rightarrow> 'a tNode option" where
  "findMin Null = None"
| "findMin (Node l r v h) = (if l \<noteq> Null then findMin l else Some (Node l r v h))"

section \<open>The tree of Lab_3-2.cpp, keyed by the phone number\<close>

text \<open>
  The recursive functions print to \<^verbatim>\<open>cout\<close>; the lines printed are returned
  beside the new subtree, in the order they are written.
\<close>

fun insertRec :: "person tNode \<Rightarrow> person \<Rightarrow> (person tNode \<times> string list) option" where
  "insertRec Null v = Some (Node Null Null v 1, [])"
| "insertRec (Node l r nv h) v =
     (if number v < number nv then
        (case insertRec l v of
           None \<Rightarrow> None
         | Some (l', out) \<Rightarrow> map_option (\<lambda>t. (t, out)) (updateHeightBalance (Node l' r nv h)))
      else if number v > number nv then
        (case insertRec r v of
           None \<Rightarrow> None
         | Some (r', out) \<Rightarrow> map_option (\<lambda>t. (t, out)) (updateHeightBalance (Node l r' nv h)))
      else Some (Node l r nv h, [''Already present, no insert.'']))"

fun retrieveRec :: "person tNode \<Rightarrow> string \<Rightarrow> person" where
  "retrieveRec Null v = person_default"
| "retrieveRec (Node l r nv h) v =
     (if v = number nv then nv
      else if v < number nv then retrieveRec l v
      else retrieveRec r v)"

text \<open>
  \<^verbatim>\<open>removeRec\<close>. With at most one child, \<^verbatim>\<open>*node = *temp\<close> overwrites the node by
  its child (children, value and cached height), or the node becomes null; with two
  children the value of the leftmost node of the right subtree is copied into the node
  and that key is removed from the right subtree.
\<close>

fun removeRec :: "person tNode \<Rightarrow> string \<Rightarrow> (person tNode \<times> string list) option" where
  "removeRec Null v = Some (Null, [''Node not found!''])"
| "removeRec (Node l r nv h) v =
     (if v < number nv then
        (case removeRec l v of
           None \<Rightarrow> None
         | Some (l', out) \<Rightarrow> map_option (\<lambda>t. (t, out)) (updateHeightBalance (Node l' r nv h)))
      else if v > number nv then
        (case removeRec r v of
           None \<Rightarrow> None
         | Some (r', out) \<Rightarrow> map_option (\<lambda>t. (t, out)) (updateHeightBalance (Node l r' nv h)))
      else if l = Null \<or> r = Null then
        (let temp = (if l \<noteq> Null then l else r) in
         if temp = Null then Some (Null, [])
         else map_option (\<lambda>t. (t, [])) (updateHeightBalance temp))
      else
        (case findMin r of
           Some (Node sl sr tv sh) \<Rightarrow>
             (case removeRec r (number tv) of
                None \<Rightarrow> None
              | Some (r', out) \<Rightarrow>
                  map_option (\<lambda>t. (t, out)) (updateHeightBalance (Node l r' tv h)))
         | _ \<Rightarrow> None))"

text \<open>
  \<^verbatim>\<open>removeRecFL(node, fn, ln)\<close> takes the two names by reference
  (\<^verbatim>\<open>const string&\<close>). \<^verbatim>\<open>removeFL\<close> passes the strings of its caller. The call
  inside \<^verbatim>\<open>removeRecFL\<close>, in the case of two children, passes
  \<^verbatim>\<open>temp->val.first_name\<close> and \<^verbatim>\<open>temp->val.last_name\<close>: references into the leftmost
  node of the subtree it is called on, which that call itself modifies. So the names
  are either given by value or are those the leftmost node holds at the moment they
  are read. (The parameter \<^verbatim>\<open>ln\<close> of the source is \<open>lnm\<close> here; \<open>ln\<close> is the
  logarithm of HOL.)
\<close>

datatype names_arg = ByValue string string | OfLeftmost

text \<open>
  To follow the node the references point into, each node carries a mark beside its
  value. The mark belongs to the node object: rotations move it along with the value,
  and \<^verbatim>\<open>*node = *temp\<close> copies the value but not the mark. \<open>mark_leftmost\<close> sets the
  mark of the leftmost node, \<open>referent\<close> returns the value the marked node holds, if
  the marked node is still in the tree, and \<open>clear_marks\<close> removes every mark.
\<close>

fun mark_leftmost :: "('a \<times> bool) tNode \<Rightarrow> ('a \<times> bool) tNode" where
  "mark_leftmost Null = Null"
| "mark_leftmost (Node l r (v, tg) h) =
     (if l \<noteq> Null then Node (mark_leftmost l) r (v, tg) h else Node l r (v, True) h)"

fun referent :: "('a \<times> bool) tNode \<Rightarrow> 'a option" where
  "referent Null = None"
| "referent (Node l r (v, tg) h) =
     (if tg then Some v else (case referent l of Some x \<Rightarrow> Some x | None \<Rightarrow> referent r))"

definition clear_marks :: "('a \<times> bool) tNode \<Rightarrow> ('a \<times> bool) tNode" where
  "clear_marks t = map_tNode (\<lambda>(v, tg). (v, False)) t"

text \<open>
  \<^verbatim>\<open>removeRecFL\<close> first cleans both subtrees, then tests the node. The names are
  read at each test; with \<open>OfLeftmost\<close> they are read from the marked node, and
  reading them after that node has been deleted is a read of freed memory: no result.
  During the call on the right subtree the marked node, which is in the left subtree
  or is the node itself, is not touched, so that call gets the names by value. With at
  most one child the node takes over the content of its child and the child is
  deleted; with two children the node takes the value of the leftmost node of its
  right subtree and that subtree is cleaned with references into this very node. The
  recursion is nested, so the function is a partial function; \<open>None\<close> is a null
  dereference, a read of freed memory, or no result at all.
\<close>

partial_function (option) removeRecFL ::
  "(person \<times> bool) tNode \<Rightarrow> names_arg \<Rightarrow> (person \<times> bool) tNode option" where
  "removeRecFL node names =
     (case node of
        Null \<Rightarrow> Some Null
      | Node l r (v, tg) h \<Rightarrow>
          Option.bind (removeRecFL l names) (\<lambda>l'.
          Option.bind
            (case names of
               ByValue fn lnm \<Rightarrow> Some (fn, lnm)
             | OfLeftmost \<Rightarrow>
                 map_option (\<lambda>x. (first_name x, last_name x)) (referent (Node l' r (v, tg) h)))
            (\<lambda>(fn, lnm).
          Option.bind (removeRecFL r (ByValue fn lnm)) (\<lambda>r'.
            if fn = first_name v \<and> lnm = last_name v then
              (if l' = Null \<or> r' = Null then
                 (case (if l' \<noteq> Null then l' else r') of
                    Null \<Rightarrow> Some Null
                  | Node cl cr (cv, ctg) ch \<Rightarrow> updateHeightBalance (Node cl cr (cv, tg) ch))
               else
                 Option.bind (findMin r') (\<lambda>temp.
                   case temp of
                     Null \<Rightarrow> None
                   | Node sl sr (tv, stg) sh \<Rightarrow>
                       Option.bind (removeRecFL (mark_leftmost r') OfLeftmost) (\<lambda>r''.
                         updateHeightBalance (Node l' (clear_marks r'') (tv, tg) h))))
            else updateHeightBalance (Node l' r' (v, tg) h)))))"

declare removeRecFL.simps [code]

text \<open>
  The public operations \<^verbatim>\<open>AVL::insert\<close>, \<^verbatim>\<open>AVL::retrieve\<close>, \<^verbatim>\<open>AVL::remove\<close> and
  \<^verbatim>\<open>AVL::removeFL\<close>. The class \<^verbatim>\<open>AVL\<close> holds only \<^verbatim>\<open>head\<close>, so an object is
  modelled by its root.
\<close>

definition AVL_insert :: "person \<Rightarrow> person tNode \<Rightarrow> (person tNode \<times> string list) option" where
  "AVL_insert v head = insertRec head v"

definition AVL_retrieve :: "string \<Rightarrow> person tNode \<Rightarrow> person" where
  "AVL_retrieve t head = retrieveRec head t"

definition AVL_remove :: "string \<Rightarrow> person tNode \<Rightarrow> (person tNode \<times> string list) option" where
  "AVL_remove t head = removeRec head t"

definition AVL_removeFL :: "string \<Rightarrow> string \<Rightarrow> person tNode \<Rightarrow> person tNode option" where
  "AVL_removeFL fn lnm head =
     map_option (map_tNode fst)
       (removeRecFL (map_tNode (\<lambda>v. (v, False)) head) (ByValue fn lnm))"

text \<open>
  Printing. What one call of \<^verbatim>\<open>printHelp\<close> writes for a node is one chunk of text;
  the result is the list of chunks in the order they are written. The helper reads
  \<^verbatim>\<open>node->left\<close> at once, so it has no result on the null pointer. The default
  argument of the source, \<^verbatim>\<open>" "\<close>, switches the filter off.
\<close>

definition cout_person :: "person \<Rightarrow> string" where
  "cout_person v = first_name v @ '' '' @ last_name v @ '' : '' @ number v @ '' || ''"

fun printHelp :: "person tNode \<Rightarrow> string \<Rightarrow> string list option" where
  "printHelp Null fname = None"
| "printHelp (Node l r v h) fname =
     Option.bind (if l \<noteq> Null then printHelp l fname else Some []) (\<lambda>a.
       let b = (if fname = '' '' \<or> fname = first_name v then [cout_person v] else []) in
       Option.bind (if r \<noteq> Null then printHelp r fname else Some []) (\<lambda>c.
         Some (a @ b @ c)))"

definition printAll :: "person tNode \<Rightarrow> string list option" where
  "printAll head = (if head \<noteq> Null then printHelp head '' '' else Some [])"

definition printFN :: "string \<Rightarrow> person tNode \<Rightarrow> string list option" where
  "printFN fname head = (if head \<noteq> Null then printHelp head fname else Some [])"

section \<open>Insertion and printing in Lab_3-1.cpp\<close>

text \<open>
  Lab_3-1.cpp stores a \<^verbatim>\<open>double\<close> in each node and compares the values
  themselves. The model takes any linearly ordered type for them: the doubles without
  NaN, on which \<^verbatim>\<open><\<close> and \<^verbatim>\<open>>\<close> are not a linear order. \<^verbatim>\<open>insertRec\<close> is the
  code of Lab_3-2.cpp but for the comparison and one more line of output.
\<close>

fun insertRec_3_1 :: "'a::linorder tNode \<Rightarrow> 'a \<Rightarrow> ('a tNode \<times> string list) option" where
  "insertRec_3_1 Null v = Some (Node Null Null v 1, [''Successful Insert!''])"
| "insertRec_3_1 (Node l r nv h) v =
     (if v < nv then
        (case insertRec_3_1 l v of
           None \<Rightarrow> None
         | Some (l', out) \<Rightarrow> map_option (\<lambda>t. (t, out)) (updateHeightBalance (Node l' r nv h)))
      else if v > nv then
        (case insertRec_3_1 r v of
           None \<Rightarrow> None
         | Some (r', out) \<Rightarrow> map_option (\<lambda>t. (t, out)) (updateHeightBalance (Node l r' nv h)))
      else Some (Node l r nv h, [''Already present, no insert.'']))"

definition insert_3_1 :: "'a::linorder \<Rightarrow> 'a tNode \<Rightarrow> ('a tNode \<times> string list) option" where
  "insert_3_1 v head = insertRec_3_1 head v"


text \<open>
  \<^verbatim>\<open>printHelp(node)\<close> of Lab_3-1.cpp writes \<^verbatim>\<open>node->val\<close> and a blank; the result is
  the list of values written. \<^verbatim>\<open>printInOrder\<close> passes \<^verbatim>\<open>head\<close> to it without a
  test and ends the line.
\<close>

fun printHelp_3_1 :: "'a tNode \<Rightarrow> 'a list option" where
  "printHelp_3_1 Null = None"
| "printHelp_3_1 (Node l r v h) =
     Option.bind (if l \<noteq> Null then printHelp_3_1 l else Some []) (\<lambda>a.
       Option.bind (if r \<noteq> Null then printHelp_3_1 r else Some []) (\<lambda>c.
         Some (a @ [v] @ c)))"

definition printInOrder :: "'a tNode \<Rightarrow> 'a list option" where
  "printInOrder head = printHelp_3_1 head"

section \<open>The hash table of Lab_3-2.cpp: prime sizing\<close>

text \<open>
  \<^verbatim>\<open>std::sqrt\<close> is applied to an \<^verbatim>\<open>int\<close> and its result is converted back to
  \<^verbatim>\<open>int\<close>, which truncates. For a non-negative 32-bit argument the correctly
  rounded double square root truncates to the integer square root, which is what
  \<open>int_sqrt\<close> computes, by search from 0.
\<close>

function sqrt_search :: "int \<Rightarrow> int \<Rightarrow> int" where
  "sqrt_search k n = (if (k + 1) * (k + 1) \<le> n then sqrt_search (k + 1) n else k)"
  by pat_completeness auto
termination
proof (relation "measure (\<lambda>(k, n). nat (n - k))")
  show "wf (measure (\<lambda>(k, n). nat (n - k)))" by simp
next
  fix k n :: int
  assume a: "(k + 1) * (k + 1) \<le> n"
  have "k + 1 \<le> (k + 1) * (k + 1)"
  proof (cases "0 \<le> k + 1")
    case True
    then show ?thesis by (cases "k + 1 = 0") (simp_all add: mult_le_cancel_left1)
  next
    case False
    then have "k + 1 \<le> 0" by simp
    also have "0 \<le> (k + 1) * (k + 1)" by simp
    finally show ?thesis .
  qed
  with a have "k < n" by linarith
  then show "((k + 1, n), (k, n)) \<in> measure (\<lambda>(k, n). nat (n - k))" by simp
qed

definition int_sqrt :: "int \<Rightarrow> int" where
  "int_sqrt n = sqrt_search 0 n"

text \<open>
  \<^verbatim>\<open>generate_small_primes(limit)\<close>. \<open>small_primes_test i primes\<close> is the inner loop
  over the primes found so far and returns the flag \<^verbatim>\<open>is_prime\<close>;
  \<open>small_primes_loop\<close> is the outer loop over the odd numbers from 3. All operands
  of \<^verbatim>\<open>%\<close> are positive here, where C++ and HOL agree.
\<close>

fun small_primes_test :: "int \<Rightarrow> int list \<Rightarrow> bool" where
  "small_primes_test i [] = True"
| "small_primes_test i (prime # primes) =
     (if prime * prime > i then True
      else if i mod prime = 0 then False
      else small_primes_test i primes)"

function small_primes_loop :: "int \<Rightarrow> int \<Rightarrow> int list \<Rightarrow> int list" where
  "small_primes_loop i limit primes =
     (if i \<le> limit
      then small_primes_loop (i + 2) limit
             (if small_primes_test i primes then primes @ [i] else primes)
      else primes)"
  by pat_completeness auto
termination
  by (relation "measure (\<lambda>(i, limit, primes). nat (limit + 1 - i))") auto

definition generate_small_primes :: "int \<Rightarrow> int list" where
  "generate_small_primes limit = small_primes_loop 3 limit [2]"

text \<open>\<^verbatim>\<open>is_prime(num, primes)\<close>; \<open>is_prime_loop\<close> is its loop over the list.\<close>

fun is_prime_loop :: "int \<Rightarrow> int \<Rightarrow> int list \<Rightarrow> bool" where
  "is_prime_loop num limit [] = True"
| "is_prime_loop num limit (prime # primes) =
     (if prime > limit then True
      else if num mod prime = 0 then False
      else is_prime_loop num limit primes)"

definition is_prime :: "int \<Rightarrow> int list \<Rightarrow> bool" where
  "is_prime num primes =
     (if num \<le> 1 then False
      else if num = 2 then True
      else if num mod 2 = 0 then False
      else is_prime_loop num (int_sqrt num) primes)"

text \<open>
  \<^verbatim>\<open>next_prime(n)\<close>. The list of small primes is computed once, from the first
  candidate; the \<^verbatim>\<open>while\<close> loop is a partial function, \<open>None\<close> if it does not
  return.
\<close>

partial_function (option) next_prime_loop :: "int \<Rightarrow> int list \<Rightarrow> int option" where
  "next_prime_loop n small_primes =
     (if \<not> is_prime n small_primes then next_prime_loop (n + 2) small_primes else Some n)"

declare next_prime_loop.simps [code]

definition next_prime :: "int \<Rightarrow> int option" where
  "next_prime n =
     (if n \<le> 2 then Some 2
      else
        let n = (if n mod 2 = 0 then n + 1 else n);
            small_primes = generate_small_primes (int_sqrt n + 1)
        in next_prime_loop n small_primes)"

text \<open>
  The constructor \<^verbatim>\<open>hashTable(int expElementCt)\<close>. The argument of \<^verbatim>\<open>next_prime\<close>
  is the \<^verbatim>\<open>double\<close> \<^verbatim>\<open>expElementCt / 0.75 + 1\<close> converted to \<^verbatim>\<open>int\<close>: it is
  truncated towards zero, and the conversion is undefined where the truncated value is
  no 32-bit \<^verbatim>\<open>int\<close> (\<open>None\<close>). 0.75 is a binary fraction and the quotient of a
  32-bit integer by it is either an integer or a third away from one, so rounding to
  \<^verbatim>\<open>double\<close> never changes the truncated value: the arithmetic before the conversion
  is modelled exactly, on rationals. Every count for which the conversion is defined
  is itself a 32-bit \<^verbatim>\<open>int\<close>. The buckets are default-constructed; the default
  bucket is a parameter.
\<close>

definition double_to_int :: "rat \<Rightarrow> int option" where
  "double_to_int x =
     (let t = (if 0 \<le> x then \<lfloor>x\<rfloor> else \<lceil>x\<rceil>)
      in if - 2147483648 \<le> t \<and> t \<le> 2147483647 then Some t else None)"

record 'b hashTable =
  table :: "'b list"
  len :: int

definition hashTable_new :: "'b \<Rightarrow> int \<Rightarrow> 'b hashTable option" where
  "hashTable_new dflt expElementCt =
     Option.bind (double_to_int (of_int expElementCt / 0.75 + 1)) (\<lambda>n.
       map_option (\<lambda>len. \<lparr>table = replicate (nat len) dflt, len = len\<rparr>) (next_prime n))"

text \<open>
  \<^verbatim>\<open>hashTable::hash(key)\<close>. Whether \<^verbatim>\<open>char\<close> is signed is left to the platform by
  C++ (it is on x86 with GCC, Clang and MSVC); \<open>char_signed\<close> is that choice. In
  \<^verbatim>\<open>hash ^= c\<close> the \<^verbatim>\<open>char\<close> is converted to \<^verbatim>\<open>unsigned long long\<close>: its value,
  negative for a byte from 128 on when \<^verbatim>\<open>char\<close> is signed, modulo \<open>2^64\<close>.
\<close>

definition char_value :: "bool \<Rightarrow> char \<Rightarrow> int" where
  "char_value char_signed c =
     (let b = of_char c in if char_signed \<and> 128 \<le> b then b - 256 else b)"

definition fnv_prime :: "64 word" where
  "fnv_prime = 1099511628211"

fun hash_loop :: "bool \<Rightarrow> string \<Rightarrow> 64 word \<Rightarrow> 64 word" where
  "hash_loop char_signed [] h = h"
| "hash_loop char_signed (c # key) h =
     hash_loop char_signed key ((h XOR word_of_int (char_value char_signed c)) * fnv_prime)"

definition hash :: "bool \<Rightarrow> string \<Rightarrow> 64 word" where
  "hash char_signed key = hash_loop char_signed key 14695981039346656037"

text \<open>\<^verbatim>\<open>retrieve(key)\<close> returns the bucket \<^verbatim>\<open>table[hash(key) % len]\<close>; this is its index.\<close>

definition bucket_index :: "bool \<Rightarrow> 'b hashTable \<Rightarrow> string \<Rightarrow> nat" where
  "bucket_index char_signed ht key = unat (hash char_signed key) mod nat (len ht)"

section \<open>The specification's words for the hash table\<close>

text \<open>
  64-bit FNV-1a over the bytes of the key as the specification words it: start from
  the offset basis; for each byte, XOR the byte (0 to 255) into the accumulator, then
  multiply by the prime.
\<close>

fun spec_fnv1a_loop :: "nat list \<Rightarrow> 64 word \<Rightarrow> 64 word" where
  "spec_fnv1a_loop [] acc = acc"
| "spec_fnv1a_loop (byte # bytes) acc =
     spec_fnv1a_loop bytes ((acc XOR of_nat byte) * 1099511628211)"

definition spec_fnv1a :: "string \<Rightarrow> 64 word" where
  "spec_fnv1a key = spec_fnv1a_loop (map of_char key) 14695981039346656037"

text \<open>A prime number, and the smallest prime that is at least \<open>m\<close>.\<close>

definition prime_int :: "int \<Rightarrow> bool" where
  "prime_int p = (1 < p \<and> (\<forall>d\<in>{2..<p}. \<not> d dvd p))"

definition smallest_prime_ge :: "int \<Rightarrow> int \<Rightarrow> bool" where
  "smallest_prime_ge m p = (prime_int p \<and> m \<le> p \<and> (\<forall>q\<in>{m..<p}. \<not> prime_int q))"



text \<open>
  The argument the constructor passes to \<^verbatim>\<open>next_prime\<close>, if the conversion to
  \<^verbatim>\<open>int\<close> is defined.
\<close>

definition requested_capacity :: "int \<Rightarrow> int option" where
  "requested_capacity expElementCt = double_to_int (of_int expElementCt / 0.75 + 1)"









section \<open>Sequences of public operations\<close>

datatype AVL_op = Insert person | Remove string | RemoveFL string string

fun apply_op :: "AVL_op \<Rightarrow> person tNode \<Rightarrow> person tNode option" where
  "apply_op (Insert v) head = map_option fst (AVL_insert v head)"
| "apply_op (Remove k) head = map_option fst (AVL_remove k head)"
| "apply_op (RemoveFL fn lnm) head = AVL_removeFL fn lnm head"

text \<open>The operations that work by key: \<^verbatim>\<open>insert\<close> and \<^verbatim>\<open>remove\<close>.\<close>

fun by_key :: "AVL_op \<Rightarrow> bool" where
  "by_key (RemoveFL fn lnm) = False"
| "by_key _ = True"

text \<open>\<open>exec ops head\<close> runs the operations from left to right on the tree \<open>head\<close>.\<close>

fun exec :: "AVL_op list \<Rightarrow> person tNode \<Rightarrow> person tNode option" where
  "exec [] head = Some head"
| "exec (x # xs) head = Option.bind (apply_op x head) (exec xs)"

section \<open>Properties of trees\<close>

text \<open>The records of a tree from left to right.\<close>

fun inorder :: "'a tNode \<Rightarrow> 'a list" where
  "inorder Null = []"
| "inorder (Node l r v h) = inorder l @ v # inorder r"

text \<open>Every cached height is at least 1.\<close>

fun hpos :: "'a tNode \<Rightarrow> bool" where
  "hpos Null = True"
| "hpos (Node l r v h) = (1 \<le> h \<and> hpos l \<and> hpos r)"

text \<open>A list of records is in strictly increasing key order.\<close>

definition sortedL :: "person list \<Rightarrow> bool" where
  "sortedL xs = sorted_wrt (<) (map number xs)"

text \<open>
  The trees the class can hold: every cached height is at least 1 and the keys are
  strictly increasing from left to right.
\<close>

definition wf_tree :: "person tNode \<Rightarrow> bool" where
  "wf_tree t = (hpos t \<and> sortedL (inorder t))"

text \<open>
  The balance invariant as the specification words it, on the cached heights that
  \<^verbatim>\<open>height()\<close> returns: at every node the two subtree heights differ by at most 1
  and the cached height is 1 + the larger of them.
\<close>

fun avl_inv :: "'a tNode \<Rightarrow> bool" where
  "avl_inv Null = True"
| "avl_inv (Node l r v h) =
     (\<bar>height l - height r\<bar> \<le> 1 \<and> h = 1 + max (height l) (height r) \<and> avl_inv l \<and> avl_inv r)"

text \<open>The number of nodes on the longest path, and balance measured on it.\<close>

fun depth :: "'a tNode \<Rightarrow> int" where
  "depth Null = 0"
| "depth (Node l r v h) = 1 + max (depth l) (depth r)"

fun depth_balanced :: "'a tNode \<Rightarrow> bool" where
  "depth_balanced Null = True"
| "depth_balanced (Node l r v h) =
     (\<bar>depth l - depth r\<bar> \<le> 1 \<and> depth_balanced l \<and> depth_balanced r)"

text \<open>The test of \<^verbatim>\<open>removeRecFL\<close> on a record.\<close>

definition matchFL :: "string \<Rightarrow> string \<Rightarrow> person \<Rightarrow> bool" where
  "matchFL fn lnm x = (fn = first_name x \<and> lnm = last_name x)"

text \<open>The leftmost node of a non-empty tree is marked.\<close>

fun leftmost_marked :: "('a \<times> bool) tNode \<Rightarrow> bool" where
  "leftmost_marked Null = False"
| "leftmost_marked (Node l r (v, tg) h) = (if l \<noteq> Null then leftmost_marked l else tg)"

text \<open>The records of a marked tree from left to right.\<close>

definition vals :: "('a \<times> bool) tNode \<Rightarrow> 'a list" where
  "vals t = map fst (inorder t)"

text \<open>
  What \<^verbatim>\<open>removeRecFL\<close> guarantees of a result \<open>t'\<close> on the tree \<open>t\<close>: it is well
  formed and holds records of \<open>t\<close> only; none of them carries the names given by
  value; with references into the marked leftmost node, the record of that node is
  gone.
\<close>

definition cleaned ::
  "names_arg \<Rightarrow> (person \<times> bool) tNode \<Rightarrow> (person \<times> bool) tNode \<Rightarrow> bool" where
  "cleaned names t t' =
     (hpos t' \<and> sortedL (vals t') \<and> set (vals t') \<subseteq> set (vals t)
      \<and> length (vals t') \<le> length (vals t)
      \<and> (case names of
            ByValue fn lnm \<Rightarrow> (\<forall>x\<in>set (vals t'). \<not> matchFL fn lnm x)
          | OfLeftmost \<Rightarrow> leftmost_marked t \<longrightarrow> set (vals t') \<subseteq> set (tl (vals t))))"

section \<open>Example inputs\<close>

text \<open>A tree of three records, as three inserts in the order 200, 100, 300 build it.\<close>

definition three_records :: "person tNode" where
  "three_records =
     Node (Node Null Null (mk_person ''Ann'' ''Lee'' ''100'') 1)
          (Node Null Null (mk_person ''Cy'' ''Ng'' ''300'') 1)
          (mk_person ''Bob'' ''Ray'' ''200'') 2"

text \<open>A tree of Lab_3-1.cpp with the values 30, 50 and 100.\<close>

definition three_doubles :: "real tNode" where
  "three_doubles = Node (Node Null Null 30 1) (Node Null Null 100 1) 50 2"




text \<open>Seven records inserted in ascending key order.\<close>

definition ascending7 :: "AVL_op list" where
  "ascending7 =
     map (\<lambda>k. Insert (mk_person ''A'' ''B'' k)) [''1'', ''2'', ''3'', ''4'', ''5'', ''6'', ''7'']"

text \<open>
  Four records, two of them of the same name \<open>P Q\<close>, then the removal of the
  name \<open>X Y\<close>, which only the first record carries.
\<close>

definition shared_name_ops :: "AVL_op list" where
  "shared_name_ops =
     [Insert (mk_person ''X'' ''Y'' ''2''), Insert (mk_person ''Z'' ''Z'' ''1''),
      Insert (mk_person ''P'' ''Q'' ''3''), Insert (mk_person ''P'' ''Q'' ''4''),
      RemoveFL ''X'' ''Y'']"

text \<open>
  Four records such that the leftmost node of the root's right subtree is a leaf below
  the right child, then the removal of the name of the root.
\<close>

definition dangling_ops :: "AVL_op list" where
  "dangling_ops =
     [Insert (mk_person ''X'' ''Y'' ''2''), Insert (mk_person ''Z'' ''Z'' ''1''),
      Insert (mk_person ''A'' ''B'' ''4''), Insert (mk_person ''C'' ''D'' ''3''),
      RemoveFL ''X'' ''Y'']"

section \<open>Rotations and rebalancing keep the records in order\<close>

lemma hpos_height_nonneg: "hpos t \<Longrightarrow> 0 \<le> height t"
  by (cases t) auto

lemma hpos_height_pos: "hpos t \<Longrightarrow> t \<noteq> Null \<Longrightarrow> 1 \<le> height t"
  by (cases t) auto

lemma height_pos_not_Null: "0 < height t \<Longrightarrow> t \<noteq> Null"
  by (cases t) auto

lemma rotateRight_props:
  assumes "hpos xl" "hpos T2" "hpos yr"
  shows "\<exists>t'. rotateRight (Node (Node xl T2 xv xh) yr yv yh) = Some t' \<and> hpos t' \<and> t' \<noteq> Null
           \<and> inorder t' = inorder xl @ xv # inorder T2 @ yv # inorder yr"
  using assms hpos_height_nonneg[of xl] hpos_height_nonneg[of T2] hpos_height_nonneg[of yr]
  by (simp add: Let_def)

lemma rotateLeft_props:
  assumes "hpos xl" "hpos T2" "hpos yr" "1 \<le> xh"
  shows "\<exists>t'. rotateLeft (Node xl (Node T2 yr yv yh) xv xh) = Some t' \<and> hpos t' \<and> t' \<noteq> Null
           \<and> inorder t' = inorder xl @ xv # inorder T2 @ yv # inorder yr"
  using assms hpos_height_nonneg[of xl] hpos_height_nonneg[of T2] hpos_height_nonneg[of yr]
  by (simp add: Let_def)

lemma balance_props:
  assumes "hpos (Node l r v h)"
  shows "\<exists>t'. balance (Node l r v h) = Some t' \<and> hpos t' \<and> t' \<noteq> Null
           \<and> inorder t' = inorder l @ v # inorder r"
proof -
  consider (L) "height l - height r > 1" | (R) "height l - height r < -1"
    | (B) "\<not> height l - height r > 1" "\<not> height l - height r < -1" by linarith
  then show ?thesis
  proof cases
    case L
    from assms have hl: "hpos l" and hr: "hpos r" and h1: "1 \<le> h" by auto
    from L hpos_height_nonneg[OF hr] have "0 < height l" by linarith
    then obtain ll lr lv lh where l: "l = Node ll lr lv lh" by (cases l) auto
    show ?thesis
    proof (cases "getBalance l \<ge> 0")
      case True
      with L l hl hr rotateRight_props[of ll lr r lv lh v h] show ?thesis by simp
    next
      case False
      with l have "height ll < height lr" by simp
      with hl l hpos_height_nonneg[of ll] have "0 < height lr" by simp
      then obtain a b c d where lr: "lr = Node a b c d" by (cases lr) auto
      from hl l lr rotateLeft_props[of ll a b lh c d lv]
      obtain l' where l': "rotateLeft l = Some l'" "hpos l'" "l' \<noteq> Null" 
         "inorder l' = inorder ll @ lv # inorder a @ c # inorder b" by auto
      then obtain p q s u where l'n: "l' = Node p q s u" by (cases l') auto
      from l' l'n hr rotateRight_props[of p q r s u v h] L False l lr
      show ?thesis by auto
    qed
  next
    case R
    from assms have hl: "hpos l" and hr: "hpos r" and h1: "1 \<le> h" by auto
    from R hpos_height_nonneg[OF hl] have "0 < height r" by linarith
    then obtain rl rr rv rh where r: "r = Node rl rr rv rh" by (cases r) auto
    show ?thesis
    proof (cases "getBalance r \<le> 0")
      case True
      with R r hl hr h1 rotateLeft_props[of l rl rr h rv rh v] show ?thesis by simp
    next
      case False
      with r have "height rr < height rl" by simp
      with hr r hpos_height_nonneg[of rr] have "0 < height rl" by simp
      then obtain a b c d where rl: "rl = Node a b c d" by (cases rl) auto
      from hr r rl rotateRight_props[of a b rr c d rv rh]
      obtain r' where r': "rotateRight r = Some r'" "hpos r'" "r' \<noteq> Null" 
         "inorder r' = inorder a @ c # inorder b @ rv # inorder rr" by auto
      then obtain p q s u where r'n: "r' = Node p q s u" by (cases r') auto
      from r' r'n hl h1 rotateLeft_props[of l p q h s u v] R False r rl
      show ?thesis by auto
    qed
  next
    case B
    with assms show ?thesis by simp
  qed
qed

lemma updateHeightBalance_props:
  assumes "hpos l" "hpos r"
  shows "\<exists>t'. updateHeightBalance (Node l r v h) = Some t' \<and> hpos t' \<and> t' \<noteq> Null
           \<and> inorder t' = inorder l @ v # inorder r"
proof -
  from assms hpos_height_nonneg[of l] hpos_height_nonneg[of r]
  have "hpos (Node l r v (1 + (if height l > height r then height l else height r)))" by simp
  from balance_props[OF this] show ?thesis by (simp add: Let_def)
qed

section \<open>Insertion\<close>

declare balance.simps [simp del] updateHeightBalance.simps [simp del]

lemma sortedL_Nil [simp]: "sortedL []" by (simp add: sortedL_def)

lemma sortedL_mid:
  "sortedL (xs @ v # ys) =
     (sortedL xs \<and> sortedL ys \<and> (\<forall>x\<in>set xs. number x < number v) \<and> (\<forall>y\<in>set ys. number v < number y))"
  unfolding sortedL_def by (auto simp: sorted_wrt_append intro: less_trans)

lemma insertRec_props:
  assumes "hpos t" "sortedL (inorder t)"
  shows "\<exists>t' out. insertRec t v = Some (t', out) \<and> hpos t' \<and> t' \<noteq> Null \<and> sortedL (inorder t')
            \<and> (if number v \<in> number ` set (inorder t)
                then inorder t' = inorder t \<and> out = [''Already present, no insert.'']
                else set (inorder t') = Set.insert v (set (inorder t)) \<and> out = [])"
  using assms
proof (induction t)
  case Null
  then show ?case by (simp add: sortedL_def)
next
  case (Node l r nv h)
  from Node.prems have hl: "hpos l" and hr: "hpos r" and sl: "sortedL (inorder l)" and sr: "sortedL (inorder r)"
    and lt: "\<forall>x\<in>set (inorder l). number x < number nv" and gt: "\<forall>y\<in>set (inorder r). number nv < number y"
    by (auto simp: sortedL_mid)
  consider (Lt) "number v < number nv" | (Gt) "number nv < number v" | (Eq) "number v = number nv"
    by (meson less_linear)
  then show ?case
  proof cases
    case Lt
    from Node.IH(1)[OF hl sl] obtain l' out where
      l': "insertRec l v = Some (l', out)" "hpos l'" "sortedL (inorder l')"
        "if number v \<in> number ` set (inorder l)
         then inorder l' = inorder l \<and> out = [''Already present, no insert.'']
         else set (inorder l') = Set.insert v (set (inorder l)) \<and> out = []" by blast
    from updateHeightBalance_props[OF l'(2) hr, of nv h] obtain t' where
      t': "updateHeightBalance (Node l' r nv h) = Some t'" "hpos t'" "t' \<noteq> Null"
        "inorder t' = inorder l' @ nv # inorder r" by blast
    have notr: "number v \<notin> number ` set (inorder r)" using gt Lt by force
    have "insertRec (Node l r nv h) v = Some (t', out)" using Lt l'(1) t'(1) by simp
    moreover have "sortedL (inorder t')" using t'(4) l'(3,4) sr lt gt Lt
      by (auto simp: sortedL_mid split: if_splits)
    ultimately show ?thesis using t' l'(4) Lt notr
      by (auto split: if_splits)
  next
    case Gt
    from Node.IH(2)[OF hr sr] obtain r' out where
      r': "insertRec r v = Some (r', out)" "hpos r'" "sortedL (inorder r')"
        "if number v \<in> number ` set (inorder r)
         then inorder r' = inorder r \<and> out = [''Already present, no insert.'']
         else set (inorder r') = Set.insert v (set (inorder r)) \<and> out = []" by blast
    from updateHeightBalance_props[OF hl r'(2), of nv h] obtain t' where
      t': "updateHeightBalance (Node l r' nv h) = Some t'" "hpos t'" "t' \<noteq> Null"
        "inorder t' = inorder l @ nv # inorder r'" by blast
    have notl: "number v \<notin> number ` set (inorder l)" using lt Gt by force
    have nlt: "\<not> number v < number nv" using Gt by (simp add: order.asym)
    have "insertRec (Node l r nv h) v = Some (t', out)" using Gt nlt r'(1) t'(1) by simp
    moreover have "sortedL (inorder t')" using t'(4) r'(3,4) sl lt gt Gt
      by (auto simp: sortedL_mid split: if_splits)
    ultimately show ?thesis using t' r'(4) Gt notl
      by (auto split: if_splits)
  next
    case Eq
    with Node.prems show ?thesis by simp
  qed
qed

section \<open>Removal by key\<close>

lemma findMin_props:
  "t \<noteq> Null \<Longrightarrow> \<exists>sl sr tv sh ys. findMin t = Some (Node sl sr tv sh) \<and> inorder t = tv # ys"
proof (induction t)
  case Null
  then show ?case by simp
next
  case (Node l r v h)
  then show ?case by (cases "l = Null") auto
qed

lemma filter_keys_less: "\<forall>x\<in>set xs. number x < k \<Longrightarrow> filter (\<lambda>x. number x \<noteq> k) xs = xs"
  by (induction xs) auto

lemma filter_keys_greater: "\<forall>x\<in>set xs. k < number x \<Longrightarrow> filter (\<lambda>x. number x \<noteq> k) xs = xs"
  by (induction xs) auto

lemma updateHeightBalance_node:
  assumes "hpos t" "t \<noteq> Null"
  shows "\<exists>t'. updateHeightBalance t = Some t' \<and> hpos t' \<and> t' \<noteq> Null \<and> inorder t' = inorder t"
proof -
  from assms obtain l r v h where t: "t = Node l r v h" by (cases t) auto
  with assms updateHeightBalance_props[of l r v h] show ?thesis by auto
qed

lemma removeRec_props:
  assumes "hpos t" "sortedL (inorder t)"
  shows "\<exists>t' out. removeRec t k = Some (t', out) \<and> hpos t' \<and> sortedL (inorder t')
            \<and> inorder t' = filter (\<lambda>x. number x \<noteq> k) (inorder t)
            \<and> out = (if k \<in> number ` set (inorder t) then [] else [''Node not found!''])"
  using assms
proof (induction t arbitrary: k)
  case Null
  then show ?case by simp
next
  case (Node l r nv h)
  from Node.prems have hl: "hpos l" and hr: "hpos r" and sl: "sortedL (inorder l)" and sr: "sortedL (inorder r)"
    and lt: "\<forall>x\<in>set (inorder l). number x < number nv" and gt: "\<forall>y\<in>set (inorder r). number nv < number y"
    by (auto simp: sortedL_mid)
  consider (Lt) "k < number nv" | (Gt) "number nv < k" | (Eq) "k = number nv"
    by (meson less_linear)
  then show ?case
  proof cases
    case Lt
    from Node.IH(1)[OF hl sl, of k] obtain l' out where
      l': "removeRec l k = Some (l', out)" "hpos l'" "sortedL (inorder l')"
        "inorder l' = filter (\<lambda>x. number x \<noteq> k) (inorder l)"
        "out = (if k \<in> number ` set (inorder l) then [] else [''Node not found!''])" by blast
    from updateHeightBalance_props[OF l'(2) hr, of nv h] obtain t' where
      t': "updateHeightBalance (Node l' r nv h) = Some t'" "hpos t'"
        "inorder t' = inorder l' @ nv # inorder r" by blast
    have gtk: "\<forall>y\<in>set (inorder r). k < number y" using gt Lt by (auto intro: less_trans)
    then have notr: "k \<notin> number ` set (inorder r)" by force
    have "removeRec (Node l r nv h) k = Some (t', out)" using Lt l'(1) t'(1) by simp
    moreover have "inorder t' = filter (\<lambda>x. number x \<noteq> k) (inorder (Node l r nv h))"
      using t'(3) l'(4) Lt filter_keys_greater[OF gtk] by simp
    moreover have "sortedL (inorder t')" using t'(3) l'(3,4) sr lt gt
      by (auto simp: sortedL_mid)
    ultimately show ?thesis using t'(2) l'(5) Lt notr by auto
  next
    case Gt
    have nlt: "\<not> k < number nv" using Gt by (simp add: order.asym)
    from Node.IH(2)[OF hr sr, of k] obtain r' out where
      r': "removeRec r k = Some (r', out)" "hpos r'" "sortedL (inorder r')"
        "inorder r' = filter (\<lambda>x. number x \<noteq> k) (inorder r)"
        "out = (if k \<in> number ` set (inorder r) then [] else [''Node not found!''])" by blast
    from updateHeightBalance_props[OF hl r'(2), of nv h] obtain t' where
      t': "updateHeightBalance (Node l r' nv h) = Some t'" "hpos t'"
        "inorder t' = inorder l @ nv # inorder r'" by blast
    have ltk: "\<forall>y\<in>set (inorder l). number y < k" using lt Gt by (auto intro: less_trans)
    then have notl: "k \<notin> number ` set (inorder l)" by force
    have "removeRec (Node l r nv h) k = Some (t', out)" using Gt nlt r'(1) t'(1) by simp
    moreover have "inorder t' = filter (\<lambda>x. number x \<noteq> k) (inorder (Node l r nv h))"
      using t'(3) r'(4) Gt filter_keys_less[OF ltk] by simp
    moreover have "sortedL (inorder t')" using t'(3) r'(3,4) sl lt gt
      by (auto simp: sortedL_mid)
    ultimately show ?thesis using t'(2) r'(5) Gt notl by auto
  next
    case Eq
    have fl: "filter (\<lambda>x. number x \<noteq> k) (inorder l) = inorder l"
      using filter_keys_less[of "inorder l" k] lt Eq by simp
    have fr: "filter (\<lambda>x. number x \<noteq> k) (inorder r) = inorder r"
      using filter_keys_greater[of "inorder r" k] gt Eq by simp
    have flt: "filter (\<lambda>x. number x \<noteq> k) (inorder (Node l r nv h)) = inorder l @ inorder r"
      using fl fr Eq by simp
    show ?thesis
    proof (cases "l = Null \<or> r = Null")
      case True
      show ?thesis
      proof (cases "l = Null \<and> r = Null")
        case True
        then show ?thesis using Eq by simp
      next
        case False
        define temp where "temp = (if l \<noteq> Null then l else r)"
        have tn: "temp \<noteq> Null" and ht: "hpos temp" and it: "inorder temp = inorder l @ inorder r"
          using False True hl hr by (auto simp: temp_def)
        from updateHeightBalance_node[OF ht tn] obtain t' where
          t': "updateHeightBalance temp = Some t'" "hpos t'" "inorder t' = inorder temp" by blast
        have "removeRec (Node l r nv h) k = Some (t', [])"
          using Eq True tn t'(1) by (simp add: temp_def)
        moreover have "sortedL (inorder t')" using t'(3) tn sl sr temp_def by auto
        ultimately show ?thesis using t'(2,3) it flt Eq by simp
      qed
    next
      case False
      then have ln: "l \<noteq> Null" and rn: "r \<noteq> Null" by auto
      from findMin_props[OF rn] obtain a b tv c ys where
        fm: "findMin r = Some (Node a b tv c)" and ir: "inorder r = tv # ys" by blast
      from sr ir have ys: "sortedL ys" "\<forall>y\<in>set ys. number tv < number y"
        using sortedL_mid[of "[]" tv ys] by auto
      from Node.IH(2)[OF hr sr, of "number tv"] obtain r' out where
        r': "removeRec r (number tv) = Some (r', out)" "hpos r'" "sortedL (inorder r')"
          "inorder r' = filter (\<lambda>x. number x \<noteq> number tv) (inorder r)"
          "out = (if number tv \<in> number ` set (inorder r) then [] else [''Node not found!''])" by blast
      have ir': "inorder r' = ys" using r'(4) ir filter_keys_greater[OF ys(2)] by simp
      have out: "out = []" using r'(5) ir by simp
      from updateHeightBalance_props[OF hl r'(2), of tv h] obtain t' where
        t': "updateHeightBalance (Node l r' tv h) = Some t'" "hpos t'"
          "inorder t' = inorder l @ tv # inorder r'" by blast
      have "removeRec (Node l r nv h) k = Some (t', [])"
        using Eq False fm r'(1) out t'(1) by simp
      moreover have "\<forall>x\<in>set (inorder l). number x < number tv"
        using lt gt ir by (auto intro: less_trans)
      then have "sortedL (inorder t')" using t'(3) ir' ys sl by (simp add: sortedL_mid)
      ultimately show ?thesis using t'(2,3) ir' ir flt Eq by simp
    qed
  qed
qed

section \<open>Removal by first and last name\<close>


lemma removeRecFL_Null [simp]: "removeRecFL Null names = Some Null"
  by (subst removeRecFL.simps) simp

lemma removeRecFL_Node:
  "removeRecFL (Node l r (v, tg) h) names =
     Option.bind (removeRecFL l names) (\<lambda>l'.
     Option.bind
       (case names of
          ByValue fn lnm \<Rightarrow> Some (fn, lnm)
        | OfLeftmost \<Rightarrow>
            map_option (\<lambda>x. (first_name x, last_name x)) (referent (Node l' r (v, tg) h)))
       (\<lambda>(fn, lnm).
     Option.bind (removeRecFL r (ByValue fn lnm)) (\<lambda>r'.
       if matchFL fn lnm v then
         (if l' = Null \<or> r' = Null then
            (case (if l' \<noteq> Null then l' else r') of
               Null \<Rightarrow> Some Null
             | Node cl cr (cv, ctg) ch \<Rightarrow> updateHeightBalance (Node cl cr (cv, tg) ch))
          else
            Option.bind (findMin r') (\<lambda>temp.
              case temp of
                Null \<Rightarrow> None
              | Node sl sr (tv, stg) sh \<Rightarrow>
                  Option.bind (removeRecFL (mark_leftmost r') OfLeftmost) (\<lambda>r''.
                    updateHeightBalance (Node l' (clear_marks r'') (tv, tg) h))))
       else updateHeightBalance (Node l' r' (v, tg) h))))"
  unfolding matchFL_def by (subst removeRecFL.simps) simp

lemma inorder_map_tNode: "inorder (map_tNode f t) = map f (inorder t)"
  by (induction t) simp_all

lemma hpos_map_tNode: "hpos (map_tNode f t) = hpos t"
  by (induction t) simp_all

lemma vals_Null [simp]: "vals Null = []"
  by (simp add: vals_def)

lemma vals_Node [simp]: "vals (Node l r (v, tg) h) = vals l @ v # vals r"
  by (simp add: vals_def)

lemma vals_Nil_iff [simp]: "vals t = [] \<longleftrightarrow> t = Null"
  by (cases t) (auto simp: vals_def)

lemma vals_clear_marks [simp]: "vals (clear_marks t) = vals t"
  by (simp add: vals_def clear_marks_def inorder_map_tNode case_prod_unfold comp_def)

lemma hpos_clear_marks [simp]: "hpos (clear_marks t) = hpos t"
  by (simp add: clear_marks_def hpos_map_tNode)

lemma vals_mark_leftmost [simp]: "vals (mark_leftmost t) = vals t"
  by (induction t rule: mark_leftmost.induct) simp_all

lemma hpos_mark_leftmost [simp]: "hpos (mark_leftmost t) = hpos t"
  by (induction t rule: mark_leftmost.induct) simp_all

lemma mark_leftmost_Null_iff [simp]: "mark_leftmost t = Null \<longleftrightarrow> t = Null"
  by (cases t rule: mark_leftmost.cases) simp_all

lemma leftmost_marked_mark: "t \<noteq> Null \<Longrightarrow> leftmost_marked (mark_leftmost t)"
  by (induction t rule: mark_leftmost.induct) simp_all

lemma updateHeightBalance_vals:
  assumes "hpos l" "hpos r"
  shows "\<exists>t'. updateHeightBalance (Node l r (v, tg) h) = Some t' \<and> hpos t'
           \<and> vals t' = vals l @ v # vals r"
  using updateHeightBalance_props[OF assms, of "(v, tg)" h] by (auto simp: vals_def)

lemma findMin_vals:
  assumes "t \<noteq> Null"
  shows "\<exists>sl sr tv stg sh ys. findMin t = Some (Node sl sr (tv, stg) sh) \<and> vals t = tv # ys"
proof -
  from findMin_props[OF assms] obtain sl sr p sh ys where
    f: "findMin t = Some (Node sl sr p sh)" "inorder t = p # ys" by blast
  obtain tv stg where "p = (tv, stg)" by (cases p)
  with f show ?thesis by (auto simp: vals_def)
qed

lemma referent_leftmost:
  "leftmost_marked (Node Null r (v, tg) h) \<Longrightarrow> referent (Node Null r (v, tg) h) = Some v"
  by simp

lemma removeRecFL_props:
  assumes "removeRecFL t names = Some t'" "hpos t" "sortedL (vals t)"
  shows "cleaned names t t'"
  using assms
proof (induction "length (vals t)" arbitrary: t names t' rule: less_induct)
  case less
  show ?case
  proof (cases t)
    case Null
    with less.prems(1) show ?thesis by (cases names) (simp_all add: cleaned_def)
  next
    case (Node l r p h)
    obtain v tg where p: "p = (v, tg)" by (cases p)
    note t = Node[unfolded p]
    from less.prems(2,3) t have hl: "hpos l" and hr: "hpos r"
      and sl: "sortedL (vals l)" and sr: "sortedL (vals r)"
      and lt: "\<forall>x\<in>set (vals l). number x < number v"
      and gt: "\<forall>y\<in>set (vals r). number v < number y"
      by (auto simp: sortedL_mid)
    from less.prems(1) obtain l' fn lnm r' where
      l': "removeRecFL l names = Some l'"
      and nm: "(case names of
                  ByValue fn lnm \<Rightarrow> Some (fn, lnm)
                | OfLeftmost \<Rightarrow>
                    map_option (\<lambda>x. (first_name x, last_name x)) (referent (Node l' r (v, tg) h)))
               = Some (fn, lnm)"
      and r': "removeRecFL r (ByValue fn lnm) = Some r'"
      and res: "(if matchFL fn lnm v then
         (if l' = Null \<or> r' = Null then
            (case (if l' \<noteq> Null then l' else r') of
               Null \<Rightarrow> Some Null
             | Node cl cr (cv, ctg) ch \<Rightarrow> updateHeightBalance (Node cl cr (cv, tg) ch))
          else
            Option.bind (findMin r') (\<lambda>temp.
              case temp of
                Null \<Rightarrow> None
              | Node sl sr (tv, stg) sh \<Rightarrow>
                  Option.bind (removeRecFL (mark_leftmost r') OfLeftmost) (\<lambda>r''.
                    updateHeightBalance (Node l' (clear_marks r'') (tv, tg) h))))
       else updateHeightBalance (Node l' r' (v, tg) h)) = Some t'"
      unfolding t removeRecFL_Node by (auto simp: bind_eq_Some_conv)
    from less.hyps[OF _ l' hl sl] t have cl: "cleaned names l l'" by simp
    from less.hyps[OF _ r' hr sr] t have cr: "cleaned (ByValue fn lnm) r r'" by simp
    from cl have hl': "hpos l'" and sl': "sortedL (vals l')" and subl: "set (vals l') \<subseteq> set (vals l)"
      and lenl: "length (vals l') \<le> length (vals l)" by (auto simp: cleaned_def)
    from cr have hr': "hpos r'" and sr': "sortedL (vals r')" and subr: "set (vals r') \<subseteq> set (vals r)"
      and lenr: "length (vals r') \<le> length (vals r)"
      and nmr: "\<forall>x\<in>set (vals r'). \<not> matchFL fn lnm x" by (auto simp: cleaned_def)
    have lt': "\<forall>x\<in>set (vals l'). number x < number v" using lt subl by auto
    have gt': "\<forall>y\<in>set (vals r'). number v < number y" using gt subr by auto
    txt \<open>What the result holds, in each of the three cases.\<close>
    have core: "hpos t' \<and> sortedL (vals t') \<and> length (vals t') \<le> length (vals l') + 1 + length (vals r')
        \<and> set (vals t') \<subseteq> set (vals l') \<union> {x. x = v \<and> \<not> matchFL fn lnm v} \<union> set (vals r')"
    proof (cases "matchFL fn lnm v")
      case False
      from updateHeightBalance_vals[OF hl' hr', of v tg h] res False obtain
        "hpos t'" "vals t' = vals l' @ v # vals r'" by auto
      then show ?thesis using False sl' sr' lt' gt' by (auto simp: sortedL_mid)
    next
      case True
      show ?thesis
      proof (cases "l' = Null \<or> r' = Null")
        case one: True
        define temp where "temp = (if l' \<noteq> Null then l' else r')"
        have vt: "vals temp = vals l' @ vals r'" and ht: "hpos temp"
          using one hl' hr' by (auto simp: temp_def)
        show ?thesis
        proof (cases temp)
          case Null
          with res True one have "t' = Null" by (simp add: temp_def)
          then show ?thesis by simp
        next
          case (Node cl cr cp ch)
          obtain cv ctg where cp: "cp = (cv, ctg)" by (cases cp)
          from ht Node have "hpos cl" "hpos cr" by simp_all
          from updateHeightBalance_vals[OF this, of cv tg ch] res True one Node cp obtain
            h': "hpos t'" and v': "vals t' = vals cl @ cv # vals cr" by (auto simp: temp_def)
          have "vals temp = vals cl @ cv # vals cr" using Node cp by simp
          with v' vt have e: "vals t' = vals l' @ vals r'" by simp
          have "sortedL (vals l' @ vals r')" using one sl' sr' by auto
          with h' e show ?thesis by auto
        qed
      next
        case two: False
        then have rn: "r' \<noteq> Null" by simp
        from findMin_vals[OF rn] obtain a b tv stg c ys where
          fm: "findMin r' = Some (Node a b (tv, stg) c)" and vr: "vals r' = tv # ys" by blast
        from res True two fm obtain r'' where
          r'': "removeRecFL (mark_leftmost r') OfLeftmost = Some r''"
          and up: "updateHeightBalance (Node l' (clear_marks r'') (tv, tg) h) = Some t'"
          by (auto simp: bind_eq_Some_conv)
        have "length (vals (mark_leftmost r')) < length (vals t)" using lenr t by simp
        from less.hyps[OF this r''] hr' sr' have "cleaned OfLeftmost (mark_leftmost r') r''" by simp
        with leftmost_marked_mark[OF rn] have hr'': "hpos r''" and sr'': "sortedL (vals r'')"
          and subr'': "set (vals r'') \<subseteq> set ys" and lenr'': "length (vals r'') \<le> length (vals r')"
          using vr by (auto simp: cleaned_def)
        from sr' vr have ys: "\<forall>y\<in>set ys. number tv < number y"
          using sortedL_mid[of "[]" tv ys] by auto
        from updateHeightBalance_vals[of l' "clear_marks r''" tv tg h] hl' hr'' up obtain
          "hpos t'" "vals t' = vals l' @ tv # vals r''" by auto
        moreover have "\<forall>x\<in>set (vals l'). number x < number tv"
          using lt' gt' vr by (auto intro: less_trans)
        moreover have "\<forall>y\<in>set (vals r''). number tv < number y" using ys subr'' by auto
        ultimately show ?thesis using sl' sr'' subr'' lenr'' vr by (auto simp: sortedL_mid)
      qed
    qed
    have sub: "set (vals t') \<subseteq> set (vals t)" using core subl subr t by auto
    have len: "length (vals t') \<le> length (vals t)" using core lenl lenr t by simp
    show ?thesis
    proof (cases names)
      case (ByValue f n)
      with nm have "f = fn" "n = lnm" by simp_all
      with cl ByValue have "\<forall>x\<in>set (vals l'). \<not> matchFL fn lnm x" by (simp add: cleaned_def)
      with core nmr have "\<forall>x\<in>set (vals t'). \<not> matchFL fn lnm x" by auto
      with core sub len ByValue \<open>f = fn\<close> \<open>n = lnm\<close> show ?thesis by (simp add: cleaned_def)
    next
      case OfLeftmost
      have "set (vals t') \<subseteq> set (tl (vals t))" if lm: "leftmost_marked t"
      proof (cases "l = Null")
        case True
        with lm t have tg by simp
        with nm OfLeftmost True l' have "fn = first_name v" "lnm = last_name v" by auto
        then have "matchFL fn lnm v" by (simp add: matchFL_def)
        moreover from True l' have "vals l' = []" by simp
        ultimately show ?thesis using core subr t True by auto
      next
        case False
        with lm t have "leftmost_marked l" by simp
        with cl OfLeftmost have "set (vals l') \<subseteq> set (tl (vals l))" by (simp add: cleaned_def)
        moreover from False have "tl (vals t) = tl (vals l) @ v # vals r" using t by simp
        ultimately show ?thesis using core subr by auto
      qed
      with core sub len OfLeftmost show ?thesis by (simp add: cleaned_def)
    qed
  qed
qed

lemma removeFL_cleaned:
  assumes "wf_tree t" "AVL_removeFL fn lnm t = Some t'"
  shows "wf_tree t' \<and> set (inorder t') \<subseteq> {x \<in> set (inorder t). \<not> matchFL fn lnm x}"
proof -
  let ?m = "map_tNode (\<lambda>v. (v, False)) t"
  from assms(2) obtain u where
    u: "removeRecFL ?m (ByValue fn lnm) = Some u" and t': "t' = map_tNode fst u"
    by (auto simp: AVL_removeFL_def)
  have vm: "vals ?m = inorder t" by (simp add: vals_def inorder_map_tNode comp_def)
  from assms(1) have "hpos ?m" "sortedL (vals ?m)"
    by (simp_all add: wf_tree_def hpos_map_tNode vm)
  from removeRecFL_props[OF u this] have "cleaned (ByValue fn lnm) ?m u" .
  moreover have "inorder t' = vals u" by (simp add: t' vals_def inorder_map_tNode)
  moreover have "hpos t' = hpos u" by (simp add: t' hpos_map_tNode)
  ultimately show ?thesis using vm by (auto simp: cleaned_def wf_tree_def)
qed

section \<open>Lookup and printing\<close>

lemma retrieveRec_absent:
  "k \<notin> number ` set (inorder t) \<Longrightarrow> retrieveRec t k = person_default"
  by (induction t) auto

lemma retrieveRec_found:
  "sortedL (inorder t) \<Longrightarrow> x \<in> set (inorder t) \<Longrightarrow> retrieveRec t (number x) = x"
proof (induction t)
  case Null
  then show ?case by simp
next
  case (Node l r nv h)
  from Node.prems(1) have sl: "sortedL (inorder l)" and sr: "sortedL (inorder r)"
    and lt: "\<forall>y\<in>set (inorder l). number y < number nv"
    and gt: "\<forall>y\<in>set (inorder r). number nv < number y"
    by (auto simp: sortedL_mid)
  from Node.prems(2) consider "x = nv" | "x \<in> set (inorder l)" | "x \<in> set (inorder r)" by auto
  then show ?case
  proof cases
    case 1
    then show ?thesis by simp
  next
    case 2
    with lt have "number x < number nv" by simp
    with Node.IH(1)[OF sl 2] show ?thesis by simp
  next
    case 3
    with gt have "number nv < number x" by simp
    then have "number x \<noteq> number nv" "\<not> number x < number nv" by (auto simp: order.asym)
    with Node.IH(2)[OF sr 3] show ?thesis by simp
  qed
qed

lemma printHelp_inorder:
  "t \<noteq> Null \<Longrightarrow>
   printHelp t fname =
     Some (map cout_person (filter (\<lambda>v. fname = '' '' \<or> fname = first_name v) (inorder t)))"
proof (induction t)
  case Null
  then show ?case by simp
next
  case (Node l r v h)
  then show ?case by (cases "l = Null"; cases "r = Null") (simp_all add: Let_def)
qed

lemma printHelp_3_1_inorder: "t \<noteq> Null \<Longrightarrow> printHelp_3_1 t = Some (inorder t)"
proof (induction t)
  case Null
  then show ?case by simp
next
  case (Node l r v h)
  then show ?case by (cases "l = Null"; cases "r = Null") simp_all
qed


section \<open>Every tree the public operations return is well formed\<close>

text \<open>
  \<^verbatim>\<open>insert\<close> and \<^verbatim>\<open>remove\<close> return on every well-formed tree; \<^verbatim>\<open>removeFL\<close> need not
  (it may read a node it has deleted), but a tree it returns is well formed.
\<close>

lemma wf_tree_Null: "wf_tree Null"
  by (simp add: wf_tree_def)

lemma apply_op_wf:
  assumes "wf_tree t" "apply_op x t = Some t'"
  shows "wf_tree t'"
proof (cases x)
  case (Insert v)
  from insertRec_props[of t v] assms show ?thesis
    unfolding Insert wf_tree_def by (auto simp: AVL_insert_def)
next
  case (Remove k)
  from removeRec_props[of t k] assms show ?thesis
    unfolding Remove wf_tree_def by (auto simp: AVL_remove_def)
next
  case (RemoveFL fn lnm)
  with removeFL_cleaned[OF assms(1), of fn lnm t'] assms(2) show ?thesis by simp
qed

lemma exec_wf: "wf_tree t \<Longrightarrow> exec ops t = Some t' \<Longrightarrow> wf_tree t'"
proof (induction ops arbitrary: t)
  case Nil
  then show ?case by simp
next
  case (Cons x xs)
  from Cons.prems(2) obtain t1 where t1: "apply_op x t = Some t1" "exec xs t1 = Some t'"
    by (auto simp: bind_eq_Some_conv)
  from apply_op_wf[OF Cons.prems(1) t1(1)] have "wf_tree t1" .
  from Cons.IH[OF this t1(2)] show ?case .
qed



lemma exec_by_key_returns:
  "wf_tree t \<Longrightarrow> \<forall>x\<in>set ops. by_key x \<Longrightarrow> \<exists>t'. exec ops t = Some t'"
proof (induction ops arbitrary: t)
  case Nil
  then show ?case by simp
next
  case (Cons x xs)
  from Cons.prems(2) have bk: "by_key x" and rest: "\<forall>y\<in>set xs. by_key y" by simp_all
  have "\<exists>t1. apply_op x t = Some t1"
  proof (cases x)
    case (Insert v)
    from insertRec_props[of t v] Cons.prems(1) show ?thesis
      unfolding Insert wf_tree_def by (auto simp: AVL_insert_def)
  next
    case (Remove k)
    from removeRec_props[of t k] Cons.prems(1) show ?thesis
      unfolding Remove wf_tree_def by (auto simp: AVL_remove_def)
  next
    case (RemoveFL fn lnm)
    with bk show ?thesis by simp
  qed
  then obtain t1 where t1: "apply_op x t = Some t1" by blast
  from apply_op_wf[OF Cons.prems(1) t1] have "wf_tree t1" .
  from Cons.IH[OF this rest] t1 show ?case by simp
qed

lemma sortedL_distinct: "sortedL xs \<Longrightarrow> distinct (map number xs)"
  unfolding sortedL_def by (simp add: strict_sorted_iff)

lemma exec_inserts:
  assumes "wf_tree t"
  shows "\<exists>t'. exec (map Insert vs) t = Some t' \<and> wf_tree t'
      \<and> number ` set (inorder t') = number ` (set (inorder t) \<union> set vs)
      \<and> set (inorder t') \<subseteq> set (inorder t) \<union> set vs"
  using assms
proof (induction vs arbitrary: t)
  case Nil
  then show ?case by simp
next
  case (Cons v vs)
  from insertRec_props[of t v] Cons.prems obtain t1 out where
    t1: "insertRec t v = Some (t1, out)" "hpos t1" "sortedL (inorder t1)"
      "if number v \<in> number ` set (inorder t) then inorder t1 = inorder t
       else set (inorder t1) = Set.insert v (set (inorder t))"
    unfolding wf_tree_def by (auto split: if_splits)
  then have wf1: "wf_tree t1" by (simp add: wf_tree_def)
  have k1: "number ` set (inorder t1) = Set.insert (number v) (number ` set (inorder t))"
    using t1(4) by (auto split: if_splits)
  have s1: "set (inorder t1) \<subseteq> Set.insert v (set (inorder t))"
    using t1(4) by (auto split: if_splits)
  from Cons.IH[OF wf1] obtain t' where
    t': "exec (map Insert vs) t1 = Some t'" "wf_tree t'"
      "number ` set (inorder t') = number ` (set (inorder t1) \<union> set vs)"
      "set (inorder t') \<subseteq> set (inorder t1) \<union> set vs" by blast
  have "exec (map Insert (v # vs)) t = Some t'" using t1(1) t'(1) by (simp add: AVL_insert_def)
  moreover have "number ` set (inorder t') = number ` (set (inorder t) \<union> set (v # vs))"
    using t'(3) k1 by (auto simp: image_Un)
  moreover have "set (inorder t') \<subseteq> set (inorder t) \<union> set (v # vs)"
    using t'(4) s1 by auto
  ultimately show ?case using t'(2) by blast
qed

lemma three_records_wf: "wf_tree three_records"
  by (simp add: three_records_def wf_tree_def sortedL_def mk_person_def)

section \<open>Operations that find nothing to do\<close>

lemma updateHeightBalance_id:
  "avl_inv (Node l r v h) \<Longrightarrow> updateHeightBalance (Node l r v h) = Some (Node l r v h)"
  by (auto simp: updateHeightBalance.simps balance.simps Let_def max_def)

lemma insertRec_dup_id:
  "avl_inv t \<Longrightarrow> sortedL (inorder t) \<Longrightarrow> number v \<in> number ` set (inorder t) \<Longrightarrow>
   insertRec t v = Some (t, [''Already present, no insert.''])"
proof (induction t)
  case Null
  then show ?case by simp
next
  case (Node l r nv h)
  from Node.prems(2) have sl: "sortedL (inorder l)" and sr: "sortedL (inorder r)"
    and lt: "\<forall>x\<in>set (inorder l). number x < number nv"
    and gt: "\<forall>y\<in>set (inorder r). number nv < number y"
    by (auto simp: sortedL_mid)
  from Node.prems(1) have al: "avl_inv l" and ar: "avl_inv r" by simp_all
  consider (Lt) "number v < number nv" | (Gt) "number nv < number v" | (Eq) "number v = number nv"
    by (meson less_linear)
  then show ?case
  proof cases
    case Lt
    have "number v \<notin> number ` set (inorder r)" using gt Lt by force
    with Node.prems(3) Lt have "number v \<in> number ` set (inorder l)" by auto
    from Node.IH(1)[OF al sl this] Lt updateHeightBalance_id[OF Node.prems(1)]
    show ?thesis by simp
  next
    case Gt
    have nlt: "\<not> number v < number nv" using Gt by (simp add: order.asym)
    have "number v \<notin> number ` set (inorder l)" using lt Gt by force
    with Node.prems(3) Gt have "number v \<in> number ` set (inorder r)" by auto
    from Node.IH(2)[OF ar sr this] Gt nlt updateHeightBalance_id[OF Node.prems(1)]
    show ?thesis by simp
  next
    case Eq
    then show ?thesis by simp
  qed
qed

lemma removeRec_missing_id:
  "avl_inv t \<Longrightarrow> k \<notin> number ` set (inorder t) \<Longrightarrow>
   removeRec t k = Some (t, [''Node not found!''])"
proof (induction t)
  case Null
  then show ?case by simp
next
  case (Node l r nv h)
  from Node.prems(1) have al: "avl_inv l" and ar: "avl_inv r" by simp_all
  from Node.prems(2) have kl: "k \<notin> number ` set (inorder l)" and kr: "k \<notin> number ` set (inorder r)"
    and ne: "k \<noteq> number nv" by auto
  from ne consider (Lt) "k < number nv" | (Gt) "number nv < k" by (meson less_linear)
  then show ?case
  proof cases
    case Lt
    from Node.IH(1)[OF al kl] Lt updateHeightBalance_id[OF Node.prems(1)] show ?thesis by simp
  next
    case Gt
    have nlt: "\<not> k < number nv" using Gt by (simp add: order.asym)
    from Node.IH(2)[OF ar kr] Gt nlt updateHeightBalance_id[OF Node.prems(1)] show ?thesis by simp
  qed
qed

lemma sorted_mid:
  fixes v :: "'a::linorder"
  shows "sorted_wrt (<) (xs @ v # ys) =
     (sorted_wrt (<) xs \<and> sorted_wrt (<) ys \<and> (\<forall>x\<in>set xs. x < v) \<and> (\<forall>y\<in>set ys. v < y))"
  by (auto simp: sorted_wrt_append intro: less_trans)

lemma insertRec_3_1_dup:
  fixes v :: "'a::linorder"
  shows "hpos t \<Longrightarrow> sorted_wrt (<) (inorder t) \<Longrightarrow> v \<in> set (inorder t) \<Longrightarrow>
   \<exists>t'. insertRec_3_1 t v = Some (t', [''Already present, no insert.'']) \<and> hpos t'
        \<and> inorder t' = inorder t"
proof (induction t)
  case Null
  then show ?case by simp
next
  case (Node l r nv h)
  from Node.prems(1) have hl: "hpos l" and hr: "hpos r" by simp_all
  from Node.prems(2) have sl: "sorted_wrt (<) (inorder l)" and sr: "sorted_wrt (<) (inorder r)"
    and lt: "\<forall>x\<in>set (inorder l). x < nv" and gt: "\<forall>y\<in>set (inorder r). nv < y"
    by (auto simp: sorted_mid)
  consider (Lt) "v < nv" | (Gt) "nv < v" | (Eq) "v = nv" by (meson less_linear)
  then show ?case
  proof cases
    case Lt
    have "v \<notin> set (inorder r)" using gt Lt by force
    with Node.prems(3) Lt have "v \<in> set (inorder l)" by auto
    from Node.IH(1)[OF hl sl this] obtain l' where
      l': "insertRec_3_1 l v = Some (l', [''Already present, no insert.''])" "hpos l'"
        "inorder l' = inorder l" by blast
    from updateHeightBalance_props[OF l'(2) hr, of nv h] obtain t' where
      t': "updateHeightBalance (Node l' r nv h) = Some t'" "hpos t'"
        "inorder t' = inorder l' @ nv # inorder r" by blast
    from Lt l' t' show ?thesis by simp
  next
    case Gt
    have nlt: "\<not> v < nv" using Gt by (simp add: order.asym)
    have "v \<notin> set (inorder l)" using lt Gt by force
    with Node.prems(3) Gt have "v \<in> set (inorder r)" by auto
    from Node.IH(2)[OF hr sr this] obtain r' where
      r': "insertRec_3_1 r v = Some (r', [''Already present, no insert.''])" "hpos r'"
        "inorder r' = inorder r" by blast
    from updateHeightBalance_props[OF hl r'(2), of nv h] obtain t' where
      t': "updateHeightBalance (Node l r' nv h) = Some t'" "hpos t'"
        "inorder t' = inorder l @ nv # inorder r'" by blast
    from Gt nlt r' t' show ?thesis by simp
  next
    case Eq
    with Node.prems(1) show ?thesis by simp
  qed
qed

section \<open>Prime numbers\<close>





lemma prime_le_divisor: "prime_int p \<Longrightarrow> p dvd n \<Longrightarrow> 0 < n \<Longrightarrow> p \<le> n"
  by (simp add: zdvd_imp_le)



section \<open>The integer square root\<close>

lemma sqrt_search_spec:
  "0 \<le> k \<Longrightarrow> k * k \<le> n \<Longrightarrow>
   k \<le> sqrt_search k n \<and> sqrt_search k n * sqrt_search k n \<le> n
   \<and> n < (sqrt_search k n + 1) * (sqrt_search k n + 1)"
proof (induction k n rule: sqrt_search.induct)
  case (1 k n)
  show ?case
  proof (cases "(k + 1) * (k + 1) \<le> n")
    case True
    with "1.IH"[OF True] "1.prems" have
      "k + 1 \<le> sqrt_search (k + 1) n \<and> sqrt_search (k + 1) n * sqrt_search (k + 1) n \<le> n
       \<and> n < (sqrt_search (k + 1) n + 1) * (sqrt_search (k + 1) n + 1)" by simp
    moreover have "sqrt_search k n = sqrt_search (k + 1) n"
      using True by (subst sqrt_search.simps) simp
    ultimately show ?thesis by simp
  next
    case False
    then have "sqrt_search k n = k" by (subst sqrt_search.simps) simp
    with False "1.prems" show ?thesis by simp
  qed
qed

declare sqrt_search.simps [simp del]

lemma int_sqrt_spec:
  assumes "0 \<le> n"
  shows "0 \<le> int_sqrt n" "int_sqrt n * int_sqrt n \<le> n" "n < (int_sqrt n + 1) * (int_sqrt n + 1)"
  using sqrt_search_spec[of 0 n] assms by (simp_all add: int_sqrt_def)






section \<open>The list of small primes\<close>












section \<open>The primality test and the search for the next prime\<close>








section \<open>A prime between consecutive squares, up to \<open>317\<^sup>2\<close>\<close>















section \<open>The capacity of the hash table\<close>

lemma int_sqrt_floor_sqrt:
  assumes "0 \<le> n"
  shows "int_sqrt n = \<lfloor>sqrt (real_of_int n)\<rfloor>"
proof -
  let ?r = "int_sqrt n"
  from int_sqrt_spec[OF assms] have r: "0 \<le> ?r" "?r * ?r \<le> n" "n < (?r + 1) * (?r + 1)" by auto
  have "(real_of_int ?r)\<^sup>2 \<le> real_of_int n"
    using r(2) by (metis of_int_le_iff of_int_mult power2_eq_square)
  then have lo: "real_of_int ?r \<le> sqrt (real_of_int n)" by (rule real_le_rsqrt)
  have "real_of_int n < (real_of_int (?r + 1))\<^sup>2"
    using r(3) by (metis of_int_less_iff of_int_mult power2_eq_square)
  then have hi: "sqrt (real_of_int n) < real_of_int (?r + 1)"
    using assms r(1) by (intro real_less_lsqrt) auto
  from lo hi show ?thesis by (intro floor_unique[symmetric]) auto
qed

text \<open>
  The constructor converts the \<^verbatim>\<open>double\<close> \<open>expElementCt / 0.75 + 1\<close> to \<^verbatim>\<open>int\<close>.
  The truncated value is \<open>(4 * e) div 3 + 1\<close> for \<open>e \<ge> 0\<close>; it fits the 32-bit
  \<^verbatim>\<open>int\<close> exactly for the counts from -1610612737 to 1610612735, and outside that
  range the conversion, and with it the constructor, has no defined result.
\<close>

lemma trunc_capacity:
  "(if (0 :: rat) \<le> of_int e / 0.75 + 1 then \<lfloor>(of_int e :: rat) / 0.75 + 1\<rfloor>
    else \<lceil>(of_int e :: rat) / 0.75 + 1\<rceil>)
   = (if 0 \<le> e then (4 * e) div 3 + 1 else 1 - (- (4 * e)) div 3)"
proof -
  have q: "(of_int e :: rat) / 0.75 = of_int (4 * e) / of_int 3" by simp
  have fl: "\<lfloor>(of_int e :: rat) / 0.75 + 1\<rfloor> = (4 * e) div 3 + 1"
    by (simp only: q one_add_floor[symmetric] floor_divide_of_int_eq)
  have ce: "\<lceil>(of_int e :: rat) / 0.75 + 1\<rceil> = 1 - (- (4 * e)) div 3"
  proof -
    have "\<lceil>(of_int e :: rat) / 0.75 + 1\<rceil> = \<lceil>(of_int (4 * e) :: rat) / of_int 3\<rceil> + 1"
      by (simp only: q ceiling_add_one)
    also have "\<dots> = - (- (4 * e) div 3) + 1" by (simp only: ceiling_divide_eq_div)
    finally show ?thesis by simp
  qed
  show ?thesis
  proof (cases "0 \<le> e")
    case True
    then have "(0 :: rat) \<le> of_int e / 0.75 + 1" by simp
    with True fl show ?thesis by simp
  next
    case False
    show ?thesis
    proof (cases "(0 :: rat) \<le> of_int e / 0.75 + 1")
      case True
      have "(4 * e) div 3 + 1 = 1 - (- (4 * e)) div 3"
      proof -
        from True have "0 \<le> \<lfloor>(of_int e :: rat) / 0.75 + 1\<rfloor>" by simp
        with fl have "0 \<le> (4 * e) div 3 + 1" by simp
        with False show ?thesis by linarith
      qed
      with True False fl show ?thesis by simp
    next
      case nn: False
      with False ce show ?thesis by simp
    qed
  qed
qed

lemma requested_capacity_eq:
  "requested_capacity e =
     (let t = (if 0 \<le> e then (4 * e) div 3 + 1 else 1 - (- (4 * e)) div 3)
      in if - 2147483648 \<le> t \<and> t \<le> 2147483647 then Some t else None)"
  unfolding requested_capacity_def double_to_int_def trunc_capacity ..


lemma requested_capacity_nonpos:
  assumes "- 1610612737 \<le> e" "e \<le> 0"
  shows "\<exists>m. requested_capacity e = Some m \<and> m \<le> 1"
  using assms by (auto simp: requested_capacity_eq Let_def)

lemma requested_capacity_undefined:
  assumes "e < - 1610612737 \<or> 1610612735 < e"
  shows "requested_capacity e = None"
  using assms by (auto simp: requested_capacity_eq Let_def)

lemma hashTable_new_eq:
  "hashTable_new dflt e =
     Option.bind (requested_capacity e) (\<lambda>n.
       map_option (\<lambda>len. \<lparr>table = replicate (nat len) dflt, len = len\<rparr>) (next_prime n))"
  by (simp add: hashTable_new_def requested_capacity_def)

lemma hashTable_new_undefined:
  assumes "e < - 1610612737 \<or> 1610612735 < e"
  shows "hashTable_new dflt e = None"
  using requested_capacity_undefined[OF assms] by (simp add: hashTable_new_eq)

lemma boundary_capacities:
  "map (\<lambda>e. map_option len (hashTable_new () e)) [0, 1, 2, 3] = [Some 2, Some 2, Some 3, Some 5]
   \<and> map requested_capacity [0, 1, 2, 3] = [Some 1, Some 2, Some 3, Some 5]
   \<and> smallest_prime_ge 1 2 \<and> smallest_prime_ge 2 2 \<and> smallest_prime_ge 3 3 \<and> smallest_prime_ge 5 5"
  by code_simp

section \<open>The hash function\<close>

lemma char_value_unsigned:
  "\<not> char_signed \<or> of_char c < (128 :: nat) \<Longrightarrow>
   (word_of_int (char_value char_signed c) :: 64 word) = of_nat (of_char c)"
proof -
  assume a: "\<not> char_signed \<or> of_char c < (128 :: nat)"
  have e: "(of_char c :: int) = int (of_char c)" by (simp add: of_char_def)
  from a have "char_value char_signed c = int (of_char c)"
    unfolding char_value_def Let_def e by auto
  then show ?thesis by simp
qed

lemma hash_loop_fnv1a:
  "\<not> char_signed \<or> (\<forall>c\<in>set key. of_char c < (128 :: nat)) \<Longrightarrow>
   hash_loop char_signed key h = spec_fnv1a_loop (map of_char key) h"
proof (induction key arbitrary: h)
  case Nil
  then show ?case by simp
next
  case (Cons c key)
  from Cons.prems have "\<not> char_signed \<or> of_char c < (128 :: nat)" by auto
  from char_value_unsigned[OF this] Cons show ?case by (auto simp: fnv_prime_def)
qed

lemma hash_fnv1a:
  "\<not> char_signed \<or> (\<forall>c\<in>set key. of_char c < (128 :: nat)) \<Longrightarrow>
   hash char_signed key = spec_fnv1a key"
  by (simp add: hash_def spec_fnv1a_def hash_loop_fnv1a)

section \<open>The claims\<close>

text \<open>
  C1. The specification asks that after every public operation each node has subtree
  heights that differ by at most 1 and caches 1 + the larger of them. Seven inserts
  in ascending key order into the empty tree already break both parts: the root then
  caches height 6 over subtrees of heights 3 and 1. \<^verbatim>\<open>rotateLeft\<close> computes the
  height of the new root from the height its new left child cached before the
  rotation, so the parent above sees a subtree two levels taller than it is and
  rotates where it should not. The same tree is unbalanced when heights are counted
  on the nodes instead of read from the cache.
\<close>

theorem ascending_inserts_break_avl_inv:
  "map_option avl_inv (exec ascending7 Null) = Some False
   \<and> map_option depth_balanced (exec ascending7 Null) = Some False"
  by code_simp

text \<open>
  C2. \<^verbatim>\<open>removeFL(fn, ln)\<close> should remove the records of that name and keep all
  others. On a tree with the records 2 (X Y), 1 (Z Z), 3 (P Q) and 4 (P Q), removing
  X Y leaves only the records 1 and 3: the root has two children, its successor is
  record 3, and the successor is removed from the right subtree by its name P Q,
  which takes record 4 along. \<^verbatim>\<open>removeRec\<close> removes the successor by its key. On
  the tree with the records 2 (X Y), 1 (Z Z), 4 (A B) and 3 (C D) the same call has no
  defined result: the successor, node 3, is deleted, and its parent, node 4, is then
  compared with the names that were passed as references into node 3.
\<close>

theorem removeFL_loses_other_record:
  "map_option inorder (exec shared_name_ops Null)
     = Some [mk_person ''Z'' ''Z'' ''1'', mk_person ''P'' ''Q'' ''3'']
   \<and> \<not> matchFL ''X'' ''Y'' (mk_person ''P'' ''Q'' ''4'')
   \<and> exec dangling_ops Null = None"
  by code_simp

text \<open>
  C6. On every well-formed tree (every tree that a sequence of public operations
  returns is one, \<open>exec_wf\<close>): inserting a record whose key is not in the tree returns a tree in
  which \<^verbatim>\<open>retrieve\<close> of that key is the record; removing a key of the tree
  returns a tree in which \<^verbatim>\<open>retrieve\<close> of that key is the not-found value
  \<^verbatim>\<open>person()\<close>. Both operations return.
\<close>

theorem insert_retrieve_remove_retrieve:
  assumes "wf_tree T"
  shows "(number v \<notin> number ` set (inorder T) \<longrightarrow>
            (\<exists>T' out. AVL_insert v T = Some (T', out) \<and> AVL_retrieve (number v) T' = v))
       \<and> (k \<in> number ` set (inorder T) \<longrightarrow>
            (\<exists>T' out. AVL_remove k T = Some (T', out) \<and> AVL_retrieve k T' = person_default))"
proof (intro conjI impI)
  assume nk: "number v \<notin> number ` set (inorder T)"
  from insertRec_props[of T v] assms nk obtain T' out where
    r: "insertRec T v = Some (T', out)" "sortedL (inorder T')"
      "set (inorder T') = Set.insert v (set (inorder T))"
    unfolding wf_tree_def by auto
  from retrieveRec_found[OF r(2), of v] r(3) have "retrieveRec T' (number v) = v" by simp
  with r(1) show "\<exists>T' out. AVL_insert v T = Some (T', out) \<and> AVL_retrieve (number v) T' = v"
    by (simp add: AVL_insert_def AVL_retrieve_def)
next
  assume "k \<in> number ` set (inorder T)"
  from removeRec_props[of T k] assms obtain T' out where
    r: "removeRec T k = Some (T', out)" "inorder T' = filter (\<lambda>x. number x \<noteq> k) (inorder T)"
    unfolding wf_tree_def by auto
  from r(2) have "k \<notin> number ` set (inorder T')" by auto
  from retrieveRec_absent[OF this] r(1)
  show "\<exists>T' out. AVL_remove k T = Some (T', out) \<and> AVL_retrieve k T' = person_default"
    by (simp add: AVL_remove_def AVL_retrieve_def)
qed

theorem insert_retrieve_remove_retrieve_witness:
  "wf_tree three_records
   \<and> number (mk_person ''Di'' ''Oz'' ''250'') \<notin> number ` set (inorder three_records)
   \<and> ''200'' \<in> number ` set (inorder three_records)
   \<and> (\<exists>T' out. AVL_insert (mk_person ''Di'' ''Oz'' ''250'') three_records = Some (T', out)
         \<and> AVL_retrieve (number (mk_person ''Di'' ''Oz'' ''250'')) T' = mk_person ''Di'' ''Oz'' ''250'')
   \<and> (\<exists>T' out. AVL_remove ''200'' three_records = Some (T', out)
         \<and> AVL_retrieve ''200'' T' = person_default)"
proof -
  have a: "number (mk_person ''Di'' ''Oz'' ''250'') \<notin> number ` set (inorder three_records)"
    by (simp add: three_records_def mk_person_def)
  have b: "''200'' \<in> number ` set (inorder three_records)"
    by (simp add: three_records_def mk_person_def)
  from insert_retrieve_remove_retrieve[OF three_records_wf, of "mk_person ''Di'' ''Oz'' ''250''" "''200''"]
    a b three_records_wf
  show ?thesis by blast
qed

text \<open>
  C7. For every list of records, inserting them one after the other into the empty
  tree returns a tree \<open>T\<close>; \<^verbatim>\<open>printAll\<close> writes its records from left to right
  (left subtree, node, right subtree); their keys are strictly increasing, hence
  without duplicates; the keys are those of the records inserted and every record
  written is one of them.
\<close>

theorem inserts_print_in_key_order:
  "\<exists>T. exec (map Insert vs) Null = Some T
      \<and> printAll T = Some (map cout_person (inorder T))
      \<and> sorted_wrt (<) (map number (inorder T))
      \<and> distinct (map number (inorder T))
      \<and> number ` set (inorder T) = number ` set vs
      \<and> set (inorder T) \<subseteq> set vs"
proof -
  from exec_inserts[OF wf_tree_Null, of vs] obtain T where
    T: "exec (map Insert vs) Null = Some T" "wf_tree T"
      "number ` set (inorder T) = number ` set vs" "set (inorder T) \<subseteq> set vs" by auto
  have "printAll T = Some (map cout_person (inorder T))"
    by (cases "T = Null") (simp_all add: printAll_def printHelp_inorder)
  moreover from T(2) have "sorted_wrt (<) (map number (inorder T))"
    "distinct (map number (inorder T))"
    using sortedL_distinct by (auto simp: wf_tree_def sortedL_def)
  ultimately show ?thesis using T by blast
qed

text \<open>
  C8. On every well-formed tree that holds a record of key \<open>number v\<close>, \<^verbatim>\<open>insert\<close>
  of \<open>v\<close> returns, prints the line \<^verbatim>\<open>Already present, no insert.\<close> and leaves the
  records from left to right as they were; \<^verbatim>\<open>retrieve\<close> of the key still gives the
  record stored before. Where the tree satisfies the balance invariant on its cached
  heights, the tree returned is the very same tree. The \<^verbatim>\<open>insert\<close> of Lab_3-1.cpp
  behaves alike on a tree \<open>D\<close> of values in strictly increasing order that holds
  the value \<open>d\<close>.
\<close>

theorem duplicate_insert_noop:
  assumes "wf_tree T" "number v \<in> number ` set (inorder T)"
  shows "(\<exists>T'. AVL_insert v T = Some (T', [''Already present, no insert.''])
           \<and> inorder T' = inorder T
           \<and> AVL_retrieve (number v) T' = AVL_retrieve (number v) T
           \<and> AVL_retrieve (number v) T' \<in> set (inorder T)
           \<and> (avl_inv T \<longrightarrow> T' = T))
       \<and> (hpos D \<and> sorted_wrt (<) (inorder D) \<and> d \<in> set (inorder D) \<longrightarrow>
            (\<exists>D'. insert_3_1 d D = Some (D', [''Already present, no insert.''])
               \<and> inorder D' = inorder D))"
proof (intro conjI impI)
  from insertRec_props[of T v] assms obtain T' where
    r: "insertRec T v = Some (T', [''Already present, no insert.''])" "inorder T' = inorder T"
    unfolding wf_tree_def by auto
  from assms(2) obtain x where x: "x \<in> set (inorder T)" "number x = number v" by auto
  from assms(1) have s: "sortedL (inorder T)" by (simp add: wf_tree_def)
  from retrieveRec_found[OF s x(1)] x(2) have a: "retrieveRec T (number v) = x" by simp
  from s r(2) have "sortedL (inorder T')" by simp
  from retrieveRec_found[OF this, of x] x r(2) have b: "retrieveRec T' (number v) = x" by simp
  have c: "avl_inv T \<longrightarrow> T' = T" using insertRec_dup_id[OF _ s assms(2)] r(1) by auto
  from r a b c x(1)
  show "\<exists>T'. AVL_insert v T = Some (T', [''Already present, no insert.''])
           \<and> inorder T' = inorder T
           \<and> AVL_retrieve (number v) T' = AVL_retrieve (number v) T
           \<and> AVL_retrieve (number v) T' \<in> set (inorder T)
           \<and> (avl_inv T \<longrightarrow> T' = T)"
    by (simp add: AVL_insert_def AVL_retrieve_def)
next
  assume "hpos D \<and> sorted_wrt (<) (inorder D) \<and> d \<in> set (inorder D)"
  then have "hpos D" "sorted_wrt (<) (inorder D)" "d \<in> set (inorder D)" by simp_all
  from insertRec_3_1_dup[OF this]
  show "\<exists>D'. insert_3_1 d D = Some (D', [''Already present, no insert.''])
           \<and> inorder D' = inorder D"
    by (auto simp: insert_3_1_def)
qed

theorem duplicate_insert_noop_witness:
  "wf_tree three_records
   \<and> number (mk_person ''Eve'' ''Fox'' ''300'') \<in> number ` set (inorder three_records)
   \<and> avl_inv three_records
   \<and> AVL_insert (mk_person ''Eve'' ''Fox'' ''300'') three_records
        = Some (three_records, [''Already present, no insert.''])
   \<and> AVL_retrieve ''300'' three_records = mk_person ''Cy'' ''Ng'' ''300''
   \<and> hpos three_doubles \<and> sorted_wrt (<) (inorder three_doubles)
   \<and> 30 \<in> set (inorder three_doubles)
   \<and> (\<exists>D'. insert_3_1 30 three_doubles = Some (D', [''Already present, no insert.''])
         \<and> inorder D' = inorder three_doubles)"
proof -
  have a: "number (mk_person ''Eve'' ''Fox'' ''300'') \<in> number ` set (inorder three_records)"
    by (simp add: three_records_def mk_person_def)
  have b: "avl_inv three_records" by (simp add: three_records_def)
  have c: "hpos three_doubles \<and> sorted_wrt (<) (inorder three_doubles)
           \<and> 30 \<in> set (inorder three_doubles)"
    by (simp add: three_doubles_def)
  have e: "AVL_retrieve ''300'' three_records = mk_person ''Cy'' ''Ng'' ''300''"
    by (simp add: AVL_retrieve_def three_records_def mk_person_def)
  from duplicate_insert_noop[OF three_records_wf a, of three_doubles 30] a b c e three_records_wf
  show ?thesis by auto
qed




text \<open>
  C10. \<^verbatim>\<open>printInOrder\<close> of Lab_3-1.cpp has no result on the empty tree (its helper
  reads \<^verbatim>\<open>node->left\<close> of the null root) and writes the values from left to right on
  every other tree; \<^verbatim>\<open>printAll\<close> and \<^verbatim>\<open>printFN\<close> of Lab_3-2.cpp test the root first
  and have a result on every tree, the empty one included.
\<close>

theorem printing_null_safety:
  "printInOrder (Null :: 'a tNode) = None
   \<and> (\<forall>t :: 'a tNode. t \<noteq> Null \<longrightarrow> printInOrder t = Some (inorder t))
   \<and> (\<forall>t fname. printAll t \<noteq> None \<and> printFN fname t \<noteq> None)
   \<and> printAll Null = Some [] \<and> printFN fname Null = Some []"
  by (auto simp: printInOrder_def printAll_def printFN_def printHelp_inorder
      printHelp_3_1_inorder)

theorem printing_null_safety_witness:
  "Node Null Null (50 :: int) 1 \<noteq> Null
   \<and> printInOrder (Node Null Null (50 :: int) 1) = Some (inorder (Node Null Null (50 :: int) 1))
   \<and> printAll three_records \<noteq> None"
  using printing_null_safety[where 'a = int]
  by simp




text \<open>
  C4. The specification asks that a non-positive expected element count fails fast.
  The constructor has no such test: for the counts 0 and -5 it returns a table of
  two buckets.
\<close>

theorem hashTable_nonpositive_counterexample:
  "hashTable_new () 0 = Some \<lparr>table = [(), ()], len = 2\<rparr>
   \<and> hashTable_new () (- 5) = Some \<lparr>table = [(), ()], len = 2\<rparr>"
  by code_simp

text \<open>
  C4, as the code has it. For every non-positive expected element count from
  -1610612737 on (the counts whose minimum fits \<^verbatim>\<open>int\<close>) the constructor returns a
  table of exactly two default buckets: the minimum passed to \<^verbatim>\<open>next_prime\<close> is at
  most 1 and the test \<^verbatim>\<open>n <= 2\<close> there returns 2. Below -1610612737 the conversion
  to \<^verbatim>\<open>int\<close> is out of range and the constructor has no defined result
  (\<open>hashTable_new_undefined\<close>).
\<close>

theorem hashTable_nonpositive:
  assumes "- 1610612737 \<le> e" "e \<le> 0"
  shows "hashTable_new dflt e = Some \<lparr>table = [dflt, dflt], len = 2\<rparr>"
proof -
  from requested_capacity_nonpos[OF assms] obtain m where
    m: "requested_capacity e = Some m" "m \<le> 1" by blast
  then have "next_prime m = Some 2" by (simp add: next_prime_def)
  with m(1) show ?thesis by (simp add: hashTable_new_eq numeral_2_eq_2)
qed

theorem hashTable_nonpositive_witness:
  "(- 1610612737 :: int) \<le> - 5 \<and> (- 5 :: int) \<le> 0
   \<and> hashTable_new ''bucket'' (- 5) = Some \<lparr>table = [''bucket'', ''bucket''], len = 2\<rparr>"
  using hashTable_nonpositive[of "- 5" "''bucket''"] by simp

text \<open>
  C5. The specification gives \<^verbatim>\<open>hash\<close> as 64-bit FNV-1a over the bytes of the key.
  Where \<^verbatim>\<open>char\<close> is signed, a byte from 128 on is sign-extended before the XOR
  and flips the upper 56 bits of the accumulator too: on the two bytes C3 A9 (the
  UTF-8 encoding of e with acute accent) the function returns 580246403935907841,
  FNV-1a is 775207407765167617. For keys of bytes below 128, and for every key where
  \<^verbatim>\<open>char\<close> is unsigned, the two agree (\<open>hash_fnv1a\<close>).
\<close>

theorem hash_sign_extends_bytes:
  "hash True [CHR 0xC3, CHR 0xA9] = 580246403935907841
   \<and> spec_fnv1a [CHR 0xC3, CHR 0xA9] = 775207407765167617
   \<and> hash True [CHR 0xC3, CHR 0xA9] \<noteq> spec_fnv1a [CHR 0xC3, CHR 0xA9]"
  by code_simp

end
